theory Spec2Isabelle
  imports Complex_Main "HOL-Library.Word" "HOL-Library.Log_Nat"
begin

section \<open>Data model (types.ts)\<close>

text \<open>
  A JavaScript string is a sequence of UTF-16 code units, and \<open>length\<close> counts code
  units; the line break \<open>'\n'\<close> is the code unit 10.  Line counts and heights are
  integers, small enough to be exact as JavaScript numbers.

  A JavaScript \<open>number\<close> that holds a price, a quantity, a tax rate or a discount is an
  IEEE 754 binary64 value: a finite double (\<open>Num x\<close>, with \<open>x\<close> the rational it
  denotes), an infinity, or NaN.  The two zeros are one value here: they differ only as
  divisors, and the one divisor of the component that can be zero, \<open>1 + taxRate / 100\<close>,
  is a sum, whose zero is \<open>+0\<close>.
\<close>

datatype js_number = Num rat | PosInf | NegInf | NaN

type_synonym js_string = "16 word list"

definition newline :: "16 word" where
  "newline = 10"

record QuoteItem =
  item_id :: int
  name :: js_string
  spec :: js_string
  description :: "js_string option"
  quantity :: js_number
  price :: js_number

record QuoteDetails =
  taxRate :: js_number

record QuotationData =
  quoteDetails :: QuoteDetails
  items :: "QuoteItem list"
  discount :: js_number
  isTaxInclusive :: bool

section \<open>Height estimate (QuotationPreview, getItemHeight)\<close>

definition A4_CONTENT_HEIGHT :: int where "A4_CONTENT_HEIGHT = 1050"
definition HEADER_HEIGHT :: int where "HEADER_HEIGHT = 380"
definition FOOTER_HEIGHT :: int where "FOOTER_HEIGHT = 320"
definition PAGE_2_HEADER_HEIGHT :: int where "PAGE_2_HEADER_HEIGHT = 60"
definition ROW_BASE_HEIGHT :: int where "ROW_BASE_HEIGHT = 45"
definition ROW_LINE_HEIGHT :: int where "ROW_LINE_HEIGHT = 24"
definition BOTTOM_SPACER :: int where "BOTTOM_SPACER = 50"

text \<open>\<open>text.split('\n')\<close>: the segments between line breaks, empty ones included.\<close>

fun split_newline :: "js_string \<Rightarrow> js_string list" where
  "split_newline [] = [[]]"
| "split_newline (c # cs) =
     (if c = newline then [] # split_newline cs
      else (case split_newline cs of
              [] \<Rightarrow> [[c]]
            | segment # segments \<Rightarrow> (c # segment) # segments))"

text \<open>
  \<open>countLines\<close>: \<open>!text\<close> holds for \<open>null\<close> and for the empty string; otherwise the
  \<open>forEach\<close> adds \<open>Math.max(1, Math.ceil(line.length / approxCharsPerLine))\<close> for
  every segment to \<open>totalLines\<close>, which starts at 0.
\<close>

definition countLines :: "js_string option \<Rightarrow> rat \<Rightarrow> int" where
  "countLines text approxCharsPerLine =
     (case text of
        None \<Rightarrow> 1
      | Some t \<Rightarrow>
          if t = [] then 1
          else foldl (\<lambda>totalLines line.
                        totalLines + max 1 \<lceil>rat_of_nat (length line) / approxCharsPerLine\<rceil>)
                 0 (split_newline t))"

text \<open>The truthiness test \<open>item.description ? ... : ...\<close>: false for \<open>null\<close> and for \<open>""\<close>.\<close>

definition truthy :: "js_string option \<Rightarrow> bool" where
  "truthy text = (case text of None \<Rightarrow> False | Some t \<Rightarrow> t \<noteq> [])"

definition getItemHeight :: "QuoteItem \<Rightarrow> int" where
  "getItemHeight item =
     (let nameLines = countLines (Some (name item)) 22;
          descLines = countLines (description item) 35;
          specLines = countLines (Some (spec item)) 15;
          nameBlockLines = nameLines + (if truthy (description item) then descLines else 0);
          maxLines = max (max nameBlockLines specLines) 1
      in ROW_BASE_HEIGHT + (maxLines - 1) * ROW_LINE_HEIGHT)"

section \<open>Pagination (QuotationPreview, pages)\<close>

record page_state =
  resultPages :: "QuoteItem list list"
  currentPageItems :: "QuoteItem list"
  currentHeight :: int
  pageIndex :: nat

definition limit :: int where
  "limit = A4_CONTENT_HEIGHT - BOTTOM_SPACER"

text \<open>
  The body of \<open>data.items.forEach((item, index) => ...)\<close>; \<open>n\<close> is \<open>data.items.length\<close>.
\<close>

definition place_item :: "nat \<Rightarrow> QuoteItem \<Rightarrow> nat \<Rightarrow> page_state \<Rightarrow> page_state" where
  "place_item n item index st =
     (let itemHeight = getItemHeight item;
          isLastItemGlobal = (int index = int n - 1)
      in if isLastItemGlobal then
           if currentHeight st + itemHeight + FOOTER_HEIGHT > A4_CONTENT_HEIGHT then
             if currentHeight st + itemHeight < limit then
               st\<lparr>resultPages := resultPages st @ [currentPageItems st @ [item]],
                  currentPageItems := [],
                  currentHeight := PAGE_2_HEADER_HEIGHT\<rparr>
             else
               st\<lparr>resultPages := resultPages st @ [currentPageItems st],
                  currentPageItems := [item],
                  currentHeight := PAGE_2_HEADER_HEIGHT + itemHeight\<rparr>
           else
             st\<lparr>currentPageItems := currentPageItems st @ [item],
                currentHeight := currentHeight st + itemHeight\<rparr>
         else
           if currentHeight st + itemHeight > limit then
             st\<lparr>resultPages := resultPages st @ [currentPageItems st],
                currentPageItems := [item],
                currentHeight := PAGE_2_HEADER_HEIGHT + itemHeight,
                pageIndex := pageIndex st + 1\<rparr>
           else
             st\<lparr>currentPageItems := currentPageItems st @ [item],
                currentHeight := currentHeight st + itemHeight\<rparr>)"

fun forEach_items :: "nat \<Rightarrow> nat \<Rightarrow> QuoteItem list \<Rightarrow> page_state \<Rightarrow> page_state" where
  "forEach_items n index [] st = st"
| "forEach_items n index (item # rest) st =
     forEach_items n (Suc index) rest (place_item n item index st)"

definition initial_state :: page_state where
  "initial_state =
     \<lparr>resultPages = [], currentPageItems = [], currentHeight = HEADER_HEIGHT, pageIndex = 0\<rparr>"

text \<open>The final flush after the loop, and the value of the \<open>useMemo\<close>.\<close>

definition flush :: "page_state \<Rightarrow> QuoteItem list list" where
  "flush st =
     (if length (currentPageItems st) > 0 then resultPages st @ [currentPageItems st]
      else if length (resultPages st) = 0 then resultPages st @ [[]]
      else resultPages st)"

definition pages :: "QuoteItem list \<Rightarrow> QuoteItem list list" where
  "pages its = flush (forEach_items (length its) 0 its initial_state)"

section \<open>Row numbers (QuotationPreview, getGlobalIndex)\<close>

datatype js_error = TypeError

text \<open>
  The \<open>for\<close> loop of \<open>getGlobalIndex\<close>, from \<open>i\<close> with the running \<open>count\<close>.  Reading
  \<open>pages[i].length\<close> beyond the end of \<open>pages\<close> throws a \<open>TypeError\<close>.
\<close>

function count_pages :: "'a list list \<Rightarrow> nat \<Rightarrow> nat \<Rightarrow> nat \<Rightarrow> js_error + nat" where
  "count_pages pgs pIndex i count =
     (if i < pIndex then
        if i < length pgs then count_pages pgs pIndex (Suc i) (count + length (pgs ! i))
        else Inl TypeError
      else Inr count)"
  by pat_completeness auto
termination
  by (relation "measure (\<lambda>(pgs, pIndex, i, count). pIndex - i)") auto

definition getGlobalIndex :: "'a list list \<Rightarrow> nat \<Rightarrow> nat \<Rightarrow> js_error + nat" where
  "getGlobalIndex pgs pIndex localIndex =
     (case count_pages pgs pIndex 0 0 of
        Inl e \<Rightarrow> Inl e
      | Inr count \<Rightarrow> Inr (count + localIndex + 1))"

section \<open>JavaScript numbers\<close>

text \<open>\<open>pow2 e\<close> is \<open>2\<close> to the power \<open>e\<close>, for an integer \<open>e\<close> of either sign.\<close>

definition pow2 :: "int \<Rightarrow> rat" where
  "pow2 e = (if 0 \<le> e then 2 ^ nat e else 1 / 2 ^ nat (- e))"

text \<open>For \<open>y > 0\<close>, the integer \<open>k\<close> with \<open>2 ^ k \<le> y < 2 ^ (k + 1)\<close>.\<close>

definition ilog2 :: "rat \<Rightarrow> int" where
  "ilog2 y = (if 1 \<le> y then bitlen \<lfloor>y\<rfloor> - 1 else - bitlen (\<lceil>1 / y\<rceil> - 1))"

definition round_half_even :: "rat \<Rightarrow> int" where
  "round_half_even y =
     (let f = \<lfloor>y\<rfloor>; r = y - rat_of_int f
      in if r < 1 / 2 then f else if 1 / 2 < r then f + 1 else if even f then f else f + 1)"

text \<open>
  The double nearest to \<open>x\<close>, a tie going to the even significand: a significand of 53
  bits, the exponent of the last place not below \<open>-1074\<close> (the subnormal numbers), and
  no bound above.
\<close>

definition fl :: "rat \<Rightarrow> rat" where
  "fl x =
     (if x = 0 then 0
      else (let e = max (ilog2 \<bar>x\<bar> - 52) (- 1074)
            in rat_of_int (round_half_even (x / pow2 e)) * pow2 e))"

text \<open>The result of an operation whose exact value is \<open>x\<close>: overflow gives an infinity.\<close>

definition fl_result :: "rat \<Rightarrow> js_number" where
  "fl_result x =
     (let y = fl x
      in if 2 ^ 1024 \<le> \<bar>y\<bar> then (if 0 < y then PosInf else NegInf) else Num y)"

definition is_negative :: "js_number \<Rightarrow> bool" where
  "is_negative a = (case a of Num x \<Rightarrow> x < 0 | NegInf \<Rightarrow> True | _ \<Rightarrow> False)"

definition infinity :: "bool \<Rightarrow> js_number" where
  "infinity negative = (if negative then NegInf else PosInf)"

fun num_neg :: "js_number \<Rightarrow> js_number" where
  "num_neg (Num x) = Num (- x)"
| "num_neg PosInf = NegInf"
| "num_neg NegInf = PosInf"
| "num_neg NaN = NaN"

text \<open>\<open>a + b\<close>, \<open>a - b\<close>, \<open>a * b\<close> and \<open>a / b\<close> on numbers.\<close>

fun num_add :: "js_number \<Rightarrow> js_number \<Rightarrow> js_number" where
  "num_add (Num x) (Num y) = fl_result (x + y)"
| "num_add NaN b = NaN"
| "num_add a NaN = NaN"
| "num_add PosInf NegInf = NaN"
| "num_add NegInf PosInf = NaN"
| "num_add PosInf b = PosInf"
| "num_add a PosInf = PosInf"
| "num_add NegInf b = NegInf"
| "num_add a NegInf = NegInf"

definition num_sub :: "js_number \<Rightarrow> js_number \<Rightarrow> js_number" where
  "num_sub a b = num_add a (num_neg b)"

fun num_mul :: "js_number \<Rightarrow> js_number \<Rightarrow> js_number" where
  "num_mul (Num x) (Num y) = fl_result (x * y)"
| "num_mul a b =
     (if a = NaN \<or> b = NaN \<or> a = Num 0 \<or> b = Num 0 then NaN
      else infinity (is_negative a \<noteq> is_negative b))"

fun num_div :: "js_number \<Rightarrow> js_number \<Rightarrow> js_number" where
  "num_div (Num x) (Num y) =
     (if y = 0 then (if x = 0 then NaN else infinity (x < 0)) else fl_result (x / y))"
| "num_div NaN b = NaN"
| "num_div a NaN = NaN"
| "num_div (Num x) b = Num 0"
| "num_div a (Num y) = infinity (is_negative a \<noteq> (y < 0))"
| "num_div a b = NaN"

definition num_less :: "js_number \<Rightarrow> js_number \<Rightarrow> bool" where
  "num_less a b =
     (case (a, b) of
        (Num x, Num y) \<Rightarrow> x < y
      | (Num x, PosInf) \<Rightarrow> True
      | (NegInf, Num y) \<Rightarrow> True
      | (NegInf, PosInf) \<Rightarrow> True
      | _ \<Rightarrow> False)"

text \<open>\<open>Math.max(a, b)\<close>: NaN when an argument is NaN.\<close>

definition Math_max :: "js_number \<Rightarrow> js_number \<Rightarrow> js_number" where
  "Math_max a b = (if a = NaN \<or> b = NaN then NaN else if num_less a b then b else a)"

text \<open>
  \<open>Math.round\<close>: the nearest integer, a tie going to the larger one; an infinity and NaN
  are returned as they are.
\<close>

fun Math_round :: "js_number \<Rightarrow> js_number" where
  "Math_round (Num x) = Num (rat_of_int \<lfloor>x + 1 / 2\<rfloor>)"
| "Math_round a = a"

text \<open>\<open>a || 0\<close> on a number: 0 when \<open>a\<close> is 0 or NaN, else \<open>a\<close>.\<close>

definition or_zero :: "js_number \<Rightarrow> js_number" where
  "or_zero a = (if a = Num 0 \<or> a = NaN then Num 0 else a)"

section \<open>Totals (QuotationPreview, calculations)\<close>

definition taxFactor :: "QuotationData \<Rightarrow> js_number" where
  "taxFactor d = num_add (Num 1) (num_div (taxRate (quoteDetails d)) (Num 100))"

definition getPreTaxUnitPrice :: "QuotationData \<Rightarrow> js_number \<Rightarrow> js_number" where
  "getPreTaxUnitPrice d p =
     (if isTaxInclusive d then Math_round (num_div p (taxFactor d)) else p)"

text \<open>The row amount shown in the table: \<open>effectiveUnitPrice * item.quantity\<close>.\<close>

definition rowAmount :: "QuotationData \<Rightarrow> QuoteItem \<Rightarrow> js_number" where
  "rowAmount d item =
     (let effectiveUnitPrice = getPreTaxUnitPrice d (price item)
      in num_mul effectiveUnitPrice (quantity item))"

definition calculatedSubtotal :: "QuotationData \<Rightarrow> js_number" where
  "calculatedSubtotal d =
     foldl (\<lambda>subtotal item.
              (let unitPrice = getPreTaxUnitPrice d (price item)
               in num_add subtotal (num_mul unitPrice (quantity item))))
       (Num 0) (items d)"

definition taxableAmount :: "QuotationData \<Rightarrow> js_number" where
  "taxableAmount d = Math_max (Num 0) (num_sub (calculatedSubtotal d) (or_zero (discount d)))"

definition taxAmount :: "QuotationData \<Rightarrow> js_number" where
  "taxAmount d =
     Math_round (num_mul (taxableAmount d) (num_div (taxRate (quoteDetails d)) (Num 100)))"

definition total :: "QuotationData \<Rightarrow> js_number" where
  "total d = num_add (taxableAmount d) (taxAmount d)"

section \<open>The specification's formulas\<close>

text \<open>
  Rounding half away from zero, as the specification words the rounding of the unit
  price.
\<close>

definition round_half_away_from_zero :: "rat \<Rightarrow> int" where
  "round_half_away_from_zero x = (if 0 \<le> x then \<lfloor>x + 1 / 2\<rfloor> else - \<lfloor>- x + 1 / 2\<rfloor>)"

text \<open>
  Amounts that are whole numbers: the value a finite number denotes, whether a number
  is a whole number, and the sums of the exact row amounts of a quotation.
\<close>

definition value_of :: "js_number \<Rightarrow> rat" where
  "value_of a = (case a of Num x \<Rightarrow> x | _ \<Rightarrow> 0)"

definition is_integer :: "js_number \<Rightarrow> bool" where
  "is_integer a = (case a of Num x \<Rightarrow> rat_of_int \<lfloor>x\<rfloor> = x | _ \<Rightarrow> False)"

definition exact_row :: "QuotationData \<Rightarrow> QuoteItem \<Rightarrow> rat" where
  "exact_row d item = value_of (getPreTaxUnitPrice d (price item)) * value_of (quantity item)"

definition exact_subtotal :: "QuotationData \<Rightarrow> rat" where
  "exact_subtotal d = sum_list (map (exact_row d) (items d))"

definition integer_amounts :: "QuotationData \<Rightarrow> bool" where
  "integer_amounts d =
     (list_all (\<lambda>item. is_integer (getPreTaxUnitPrice d (price item))
                        \<and> is_integer (quantity item)) (items d)
      \<and> is_integer (discount d))"

definition amounts_bound :: "QuotationData \<Rightarrow> rat" where
  "amounts_bound d =
     sum_list (map (\<lambda>item. \<bar>exact_row d item\<bar>) (items d)) + \<bar>value_of (discount d)\<bar>"

text \<open>
  The row height as the specification words it: the description counts whenever it is
  present, the empty string included.
\<close>

definition rowHeight_spec :: "QuoteItem \<Rightarrow> int" where
  "rowHeight_spec item =
     (let nameBlockLines =
            countLines (Some (name item)) 22
              + (case description item of None \<Rightarrow> 0 | Some d \<Rightarrow> countLines (Some d) 35);
          specLines = countLines (Some (spec item)) 15;
          maxLines = max (max nameBlockLines specLines) 1
      in ROW_BASE_HEIGHT + (maxLines - 1) * ROW_LINE_HEIGHT)"

text \<open>Joining segments with line breaks, the inverse of \<open>split_newline\<close>.\<close>

fun join_newline :: "js_string list \<Rightarrow> js_string" where
  "join_newline [] = []"
| "join_newline [s] = s"
| "join_newline (s # s' # ss) = s @ newline # join_newline (s' # ss)"

section \<open>Example inputs\<close>

text \<open>An item whose name holds \<open>k\<close> line breaks and nothing else: \<open>k + 1\<close> lines.\<close>

definition row_of_lines :: "int \<Rightarrow> nat \<Rightarrow> QuoteItem" where
  "row_of_lines i k =
     \<lparr>item_id = i, name = replicate k newline, spec = [], description = None,
      quantity = Num 1, price = Num 0\<rparr>"

definition item_empty_description :: QuoteItem where
  "item_empty_description =
     \<lparr>item_id = 1, name = [97], spec = [], description = Some [],
      quantity = Num 1, price = Num 0\<rparr>"

definition quote_inclusive :: QuotationData where
  "quote_inclusive =
     \<lparr>quoteDetails = \<lparr>taxRate = Num 5\<rparr>,
      items = [\<lparr>item_id = 1, name = [97], spec = [], description = None,
                quantity = Num 3, price = Num 1000\<rparr>],
      discount = Num 51, isTaxInclusive = True\<rparr>"

definition quote_rate_12 :: QuotationData where
  "quote_rate_12 =
     \<lparr>quoteDetails = \<lparr>taxRate = Num 12\<rparr>,
      items = [\<lparr>item_id = 1, name = [97], spec = [], description = None,
                quantity = Num 1, price = Num 14\<rparr>],
      discount = Num 0, isTaxInclusive = True\<rparr>"

definition quote_rate_29 :: QuotationData where
  "quote_rate_29 =
     \<lparr>quoteDetails = \<lparr>taxRate = Num 29\<rparr>,
      items = [\<lparr>item_id = 1, name = [97], spec = [], description = None,
                quantity = Num 1, price = Num 50\<rparr>],
      discount = Num 0, isTaxInclusive = False\<rparr>"

definition eight_rows :: "QuoteItem list" where
  "eight_rows = map (\<lambda>i. row_of_lines i 0) [1, 2, 3, 4, 5, 6, 7, 8]"

definition five_three_rows :: "QuoteItem list" where
  "five_three_rows =
     map (\<lambda>i. row_of_lines i 3) [1, 2, 3, 4, 5] @ map (\<lambda>i. row_of_lines i 0) [6, 7, 8]"

definition tall_between :: "QuoteItem list" where
  "tall_between = [row_of_lines 1 0, row_of_lines 2 41, row_of_lines 3 0]"

definition tall_first :: "QuoteItem list" where
  "tall_first = [row_of_lines 1 41, row_of_lines 2 0]"

definition quote_negative_tie :: QuotationData where
  "quote_negative_tie =
     \<lparr>quoteDetails = \<lparr>taxRate = Num 100\<rparr>,
      items = [\<lparr>item_id = 1, name = [97], spec = [], description = None,
                quantity = Num 1, price = Num (- 5)\<rparr>],
      discount = Num 0, isTaxInclusive = True\<rparr>"

section \<open>Invariants of the pagination loop\<close>

text \<open>An item taller than \<open>limit\<close> is the only item of its page.\<close>

definition tall_alone :: "QuoteItem list list \<Rightarrow> bool" where
  "tall_alone pgs = (\<forall>pg \<in> set pgs. \<forall>x \<in> set pg. limit < getItemHeight x \<longrightarrow> pg = [x])"

definition tall_inv :: "page_state \<Rightarrow> bool" where
  "tall_inv st =
     (tall_alone (resultPages st)
      \<and> (\<forall>x \<in> set (currentPageItems st).
            limit < getItemHeight x \<longrightarrow> currentPageItems st = [x] \<and> limit < currentHeight st)
      \<and> 0 \<le> currentHeight st)"

text \<open>Every page after the first holds an item.\<close>

definition later_pages_filled :: "QuoteItem list list \<Rightarrow> bool" where
  "later_pages_filled pgs = (\<forall>pg \<in> set (tl pgs). pg \<noteq> [])"

definition filled_inv :: "page_state \<Rightarrow> bool" where
  "filled_inv st =
     (later_pages_filled (resultPages st)
      \<and> (resultPages st \<noteq> [] \<longrightarrow> currentPageItems st \<noteq> []))"

text \<open>The first page, closed or still being filled.\<close>

definition first_page :: "page_state \<Rightarrow> QuoteItem list" where
  "first_page st = hd (resultPages st @ [currentPageItems st])"

section \<open>Line estimate\<close>

lemma foldl_add_sum_list:
  fixes f :: "'a \<Rightarrow> 'b::comm_monoid_add"
  shows "foldl (\<lambda>acc x. acc + f x) a xs = a + sum_list (map f xs)"
  by (induction xs arbitrary: a) (simp_all add: add.assoc)

lemma split_newline_not_Nil: "split_newline t \<noteq> []"
  by (induction t) (simp_all split: list.splits)

lemma split_newline_single: "newline \<notin> set t \<Longrightarrow> split_newline t = [t]"
  by (induction t) auto

lemma length_split_newline: "length (split_newline t) = Suc (count_list t newline)"
  by (induction t) (auto simp: split_newline_not_Nil split: list.splits)

lemma split_newline_segments: "seg \<in> set (split_newline t) \<Longrightarrow> newline \<notin> set seg"
proof (induction t arbitrary: seg)
  case Nil
  then show ?case by simp
next
  case (Cons c cs)
  show ?case
  proof (cases "c = newline")
    case True
    with Cons show ?thesis by auto
  next
    case False
    obtain s ss where "split_newline cs = s # ss"
      using split_newline_not_Nil [of cs] by (cases "split_newline cs") auto
    with Cons False show ?thesis by auto
  qed
qed

lemma join_split_newline: "join_newline (split_newline t) = t"
proof (induction t)
  case Nil
  then show ?case by simp
next
  case (Cons c cs)
  obtain s ss where "split_newline cs = s # ss"
    using split_newline_not_Nil [of cs] by (cases "split_newline cs") auto
  with Cons show ?case by (cases ss) auto
qed

lemma countLines_Some:
  "countLines (Some t) c =
     (if t = [] then 1
      else sum_list (map (\<lambda>line. max 1 \<lceil>rat_of_nat (length line) / c\<rceil>) (split_newline t)))"
  by (simp add: countLines_def foldl_add_sum_list)

lemma sum_list_ge_length:
  fixes f :: "'a \<Rightarrow> int"
  assumes "\<And>x. 1 \<le> f x"
  shows "int (length xs) \<le> sum_list (map f xs)"
proof (induction xs)
  case Nil
  then show ?case by simp
next
  case (Cons x xs)
  with assms [of x] show ?case by simp
qed

lemma countLines_ge_1: "1 \<le> countLines txt c"
proof (cases "txt")
  case None
  then show ?thesis by (simp add: countLines_def)
next
  case (Some t)
  have "int (length (split_newline t))
          \<le> sum_list (map (\<lambda>line. max 1 \<lceil>rat_of_nat (length line) / c\<rceil>) (split_newline t))"
    by (rule sum_list_ge_length) simp
  moreover have "1 \<le> int (length (split_newline t))"
    by (simp add: length_split_newline)
  ultimately show ?thesis using Some by (simp add: countLines_Some)
qed

lemma max_ceiling_swap:
  assumes "1 \<le> c"
  shows "max 1 \<lceil>rat_of_nat n / c\<rceil> = \<lceil>rat_of_nat (max 1 n) / c\<rceil>"
proof (cases "n = 0")
  case True
  have "0 < 1 / c" "1 / c \<le> 1" using assms by simp_all
  then have "\<lceil>1 / c\<rceil> = 1" by (intro ceiling_unique) simp_all
  with True show ?thesis by simp
next
  case False
  then have "0 < rat_of_nat n / c" using assms by simp
  then have "1 \<le> \<lceil>rat_of_nat n / c\<rceil>" by (simp add: ceiling_less_iff less_ceiling_iff)
  moreover have "max 1 n = n" using False by simp
  ultimately show ?thesis by simp
qed

lemma countLines_single:
  "newline \<notin> set t \<Longrightarrow> countLines (Some t) c = max 1 \<lceil>rat_of_nat (length t) / c\<rceil>"
  by (cases "t = []") (simp_all add: countLines_Some split_newline_single)

text \<open>
  C6.  For every text and every \<open>charsPerLine \<ge> 1\<close>, \<open>countLines\<close> returns an integer
  that is at least 1; it returns 1 for an absent and for an empty text; for a non-empty
  text it is the sum, over the segments between explicit line breaks, of
  \<open>ceil (max 1 (length segment) / charsPerLine)\<close>; a name of 50 characters in one
  segment, with 22 characters per line, gives 3.
\<close>

theorem countLines_contract:
  assumes "1 \<le> c"
  shows "1 \<le> countLines txt c
       \<and> countLines None c = 1
       \<and> countLines (Some []) c = 1
       \<and> (t \<noteq> [] \<longrightarrow>
            countLines (Some t) c
              = sum_list (map (\<lambda>segment. \<lceil>rat_of_nat (max 1 (length segment)) / c\<rceil>)
                           (split_newline t)))
       \<and> (length nm = 50 \<and> newline \<notin> set nm \<longrightarrow> countLines (Some nm) 22 = 3)"
proof -
  have a: "countLines None c = 1" "countLines (Some []) c = 1"
    by (simp_all add: countLines_def)
  have b: "t \<noteq> [] \<longrightarrow>
            countLines (Some t) c
              = sum_list (map (\<lambda>segment. \<lceil>rat_of_nat (max 1 (length segment)) / c\<rceil>)
                           (split_newline t))"
    using assms by (simp add: countLines_Some max_ceiling_swap)
  have "\<lceil>(50::rat) / 22\<rceil> = 3" by (rule ceiling_unique) simp_all
  then have d: "length nm = 50 \<and> newline \<notin> set nm \<longrightarrow> countLines (Some nm) 22 = 3"
    by (simp add: countLines_single)
  show ?thesis using a b d countLines_ge_1 by blast
qed

theorem countLines_contract_witness:
  "(1::rat) \<le> 22
   \<and> countLines (Some [97, 98, 10, 99]) 22 = 2
   \<and> countLines (Some (replicate 50 97)) 22 = 3"
proof -
  have h: "(1::rat) \<le> 22" by simp
  have n: "length (replicate 50 (97::16 word)) = 50
             \<and> newline \<notin> set (replicate 50 (97::16 word))"
    by (simp add: newline_def)
  have s: "split_newline [97, 98, 10, 99] = [[97, 98], [99]]"
    by (simp add: newline_def)
  have c: "\<lceil>(2::rat) / 22\<rceil> = 1" "\<lceil>(1::rat) / 22\<rceil> = 1"
    by (rule ceiling_unique; simp)+
  from countLines_contract [OF h, of "Some []" "[97, 98, 10, 99]" "replicate 50 97"] n s c
  show ?thesis by simp
qed

text \<open>
  C9, as stated: for texts \<open>s\<close> and \<open>t\<close> with \<open>length s \<le> length t\<close> the estimate of
  \<open>s\<close> is at most that of \<open>t\<close>.  It fails: a text that is one line break has length 1
  and two lines, a text of two letters has length 2 and one line.
\<close>

theorem countLines_length_counterexample:
  "length [newline] \<le> length [97, 97 :: 16 word]
   \<and> countLines (Some [newline]) 22 = 2
   \<and> countLines (Some [97, 97]) 22 = 1
   \<and> \<not> countLines (Some [newline]) 22 \<le> countLines (Some [97, 97]) 22"
proof -
  have c: "\<lceil>(2::rat) / 22\<rceil> = 1" by (rule ceiling_unique) simp_all
  show ?thesis using c by (simp add: countLines_Some newline_def)
qed

text \<open>
  C9, amended.  For a fixed \<open>charsPerLine \<ge> 1\<close> and texts \<open>s\<close> and \<open>t\<close> that hold no
  explicit line break, \<open>length s \<le> length t\<close> gives
  \<open>countLines s charsPerLine \<le> countLines t charsPerLine\<close>.
\<close>

theorem countLines_mono_single_segment:
  assumes "1 \<le> c" and "newline \<notin> set s" and "newline \<notin> set t"
    and "length s \<le> length t"
  shows "countLines (Some s) c \<le> countLines (Some t) c"
proof -
  have "rat_of_nat (length s) / c \<le> rat_of_nat (length t) / c"
    using assms(1,4) by (simp add: divide_right_mono)
  then have "\<lceil>rat_of_nat (length s) / c\<rceil> \<le> \<lceil>rat_of_nat (length t) / c\<rceil>"
    by (rule ceiling_mono)
  then show ?thesis using assms(2,3) by (simp add: countLines_single)
qed

theorem countLines_mono_single_segment_witness:
  "(1::rat) \<le> 22 \<and> newline \<notin> set (replicate 20 (97::16 word))
   \<and> newline \<notin> set (replicate 50 (97::16 word))
   \<and> length (replicate 20 (97::16 word)) \<le> length (replicate 50 (97::16 word))
   \<and> countLines (Some (replicate 20 97)) 22 \<le> countLines (Some (replicate 50 97)) 22"
proof -
  have h1: "(1::rat) \<le> 22" by simp
  have h2: "newline \<notin> set (replicate 20 (97::16 word))" by (simp add: newline_def)
  have h3: "newline \<notin> set (replicate 50 (97::16 word))" by (simp add: newline_def)
  have h4: "length (replicate 20 (97::16 word)) \<le> length (replicate 50 (97::16 word))"
    by simp
  from countLines_mono_single_segment [OF h1 h2 h3 h4] h1 h2 h3 h4 show ?thesis by blast
qed

section \<open>Row height\<close>

lemma getItemHeight_lines:
  "\<exists>k. 0 \<le> k \<and> getItemHeight item = 45 + 24 * k"
proof -
  define m where "m = max (max (countLines (Some (name item)) 22
        + (if truthy (description item) then countLines (description item) 35 else 0))
        (countLines (Some (spec item)) 15)) 1"
  have "1 \<le> m" by (simp add: m_def)
  moreover have "getItemHeight item = 45 + 24 * (m - 1)"
    by (simp add: getItemHeight_def m_def ROW_BASE_HEIGHT_def ROW_LINE_HEIGHT_def Let_def)
  ultimately show ?thesis by (intro exI [of _ "m - 1"]) simp
qed

lemma getItemHeight_ge: "45 \<le> getItemHeight item"
  using getItemHeight_lines [of item] by auto

lemma getItemHeight_neq_620: "getItemHeight item \<noteq> 620"
proof
  assume "getItemHeight item = 620"
  with getItemHeight_lines [of item] obtain k :: int where "620 = 45 + 24 * k" by auto
  then show False by presburger
qed

text \<open>
  Away from the empty description the height the code computes is the height the
  specification words.
\<close>

lemma getItemHeight_eq_spec:
  "description item \<noteq> Some [] \<Longrightarrow> getItemHeight item = rowHeight_spec item"
  by (simp add: getItemHeight_def rowHeight_spec_def truthy_def Let_def split: option.splits)

text \<open>
  C5.  The claim: for an item whose description is present, the empty string included,
  \<open>nameBlockLines = estimateLines(name, 22) + estimateLines(description, 35)\<close>, and
  \<open>rowHeight = rowBase + (max(nameBlockLines, specLines, 1) - 1) * rowLine\<close>.  On the
  item with a one-letter name and a present, empty description the claimed height is
  \<open>45 + 24 = 69\<close>, and \<open>getItemHeight\<close> returns 45: its test
  \<open>item.description ? descLines : 0\<close> takes the empty string for an absent one.
\<close>

theorem getItemHeight_empty_description:
  "description item_empty_description = Some []
   \<and> rowHeight_spec item_empty_description = 69
   \<and> getItemHeight item_empty_description = 45"
  by code_simp

section \<open>Pagination\<close>

subsection \<open>Order preservation\<close>

lemma place_item_concat:
  "concat (resultPages (place_item n x i st)) @ currentPageItems (place_item n x i st)
     = concat (resultPages st) @ currentPageItems st @ [x]"
  by (simp add: place_item_def Let_def)

lemma forEach_items_concat:
  "concat (resultPages (forEach_items n i xs st)) @ currentPageItems (forEach_items n i xs st)
     = concat (resultPages st) @ currentPageItems st @ xs"
proof (induction xs arbitrary: i st)
  case Nil
  then show ?case by simp
next
  case (Cons x xs)
  have "concat (resultPages (forEach_items n i (x # xs) st))
          @ currentPageItems (forEach_items n i (x # xs) st)
        = (concat (resultPages (place_item n x i st)) @ currentPageItems (place_item n x i st)) @ xs"
    using Cons.IH [of "Suc i" "place_item n x i st"] by simp
  then show ?case by (simp only: place_item_concat append_assoc append_Cons append_Nil)
qed

lemma concat_flush: "concat (flush st) = concat (resultPages st) @ currentPageItems st"
  by (simp add: flush_def)

lemma flush_not_Nil: "flush st \<noteq> []"
  by (simp add: flush_def)

lemma concat_pages: "concat (pages its) = its"
  by (simp add: pages_def concat_flush forEach_items_concat initial_state_def)

text \<open>
  C2.  For every item list, the item sequences of the pages, concatenated in page order,
  are the input list: every item once, in the original order; so the page lengths add up
  to the length of the list.
\<close>

theorem pages_flatten:
  "concat (pages its) = its \<and> sum_list (map length (pages its)) = length its"
proof -
  have "length (concat (pages its)) = sum_list (map length (pages its))"
    by (rule length_concat)
  then show ?thesis by (simp add: concat_pages)
qed

subsection \<open>Tall items\<close>

lemma tall_alone_snoc: "tall_alone (pgs @ [pg]) = (tall_alone pgs \<and> tall_alone [pg])"
  by (auto simp: tall_alone_def)

lemma tall_alone_page:
  "tall_alone [pg] = (\<forall>x \<in> set pg. limit < getItemHeight x \<longrightarrow> pg = [x])"
  by (simp add: tall_alone_def)

lemma tall_inv_current:
  assumes "tall_inv st"
  shows "tall_alone [currentPageItems st]"
  using assms by (auto simp: tall_inv_def tall_alone_page)

lemma tall_fits_none:
  assumes "tall_inv st" and "currentHeight st + getItemHeight x \<le> limit"
  shows "tall_alone [currentPageItems st @ [x]]"
proof -
  have h: "45 \<le> getItemHeight x" by (rule getItemHeight_ge)
  have "\<not> limit < getItemHeight x" using assms h by (simp add: tall_inv_def)
  moreover have "\<forall>y \<in> set (currentPageItems st). \<not> limit < getItemHeight y"
    using assms h by (auto simp: tall_inv_def)
  ultimately show ?thesis by (auto simp: tall_alone_page)
qed

lemma tall_inv_place_item:
  assumes "tall_inv st"
  shows "tall_inv (place_item n x i st)"
proof -
  have h: "45 \<le> getItemHeight x" by (rule getItemHeight_ge)
  have r: "tall_alone (resultPages st)" and c: "0 \<le> currentHeight st"
    using assms by (simp_all add: tall_inv_def)
  have fresh: "tall_inv (st\<lparr>resultPages := resultPages st @ [currentPageItems st],
                 currentPageItems := [x],
                 currentHeight := PAGE_2_HEADER_HEIGHT + getItemHeight x\<rparr>)"
    using r tall_inv_current [OF assms] h
    by (simp add: tall_inv_def tall_alone_snoc PAGE_2_HEADER_HEIGHT_def)
  have fresh': "tall_inv (st\<lparr>resultPages := resultPages st @ [currentPageItems st],
                 currentPageItems := [x],
                 currentHeight := PAGE_2_HEADER_HEIGHT + getItemHeight x,
                 pageIndex := pageIndex st + 1\<rparr>)"
    using r tall_inv_current [OF assms] h
    by (simp add: tall_inv_def tall_alone_snoc PAGE_2_HEADER_HEIGHT_def)
  have app: "currentHeight st + getItemHeight x \<le> limit \<Longrightarrow>
             tall_inv (st\<lparr>currentPageItems := currentPageItems st @ [x],
                 currentHeight := currentHeight st + getItemHeight x\<rparr>)"
  proof -
    assume f: "currentHeight st + getItemHeight x \<le> limit"
    from tall_fits_none [OF assms f]
    have "\<forall>y \<in> set (currentPageItems st @ [x]). \<not> limit < getItemHeight y"
      using f c h by (auto simp: tall_alone_page)
    then show ?thesis using r c h by (simp add: tall_inv_def)
  qed
  have closed: "currentHeight st + getItemHeight x \<le> limit \<Longrightarrow>
             tall_inv (st\<lparr>resultPages := resultPages st @ [currentPageItems st @ [x]],
                  currentPageItems := [],
                  currentHeight := PAGE_2_HEADER_HEIGHT\<rparr>)"
    using r tall_fits_none [OF assms]
    by (simp add: tall_inv_def tall_alone_snoc PAGE_2_HEADER_HEIGHT_def)
  have l: "A4_CONTENT_HEIGHT - FOOTER_HEIGHT \<le> limit"
    by (simp add: limit_def A4_CONTENT_HEIGHT_def FOOTER_HEIGHT_def BOTTOM_SPACER_def)
  show ?thesis
    unfolding place_item_def Let_def
    using fresh fresh' app closed l by (auto split: if_splits)
qed

lemma tall_inv_forEach_items:
  "tall_inv st \<Longrightarrow> tall_inv (forEach_items n i xs st)"
  by (induction xs arbitrary: i st) (simp_all add: tall_inv_place_item)

lemma tall_inv_initial: "tall_inv initial_state"
  by (simp add: tall_inv_def initial_state_def tall_alone_def HEADER_HEIGHT_def)

lemma tall_alone_flush: "tall_inv st \<Longrightarrow> tall_alone (flush st)"
  using tall_inv_current [of st]
  by (auto simp: flush_def tall_inv_def tall_alone_snoc tall_alone_def)

lemma pages_tall_between:
  "pages tall_between = [[row_of_lines 1 0], [row_of_lines 2 41], [row_of_lines 3 0]]"
  by code_simp

lemma tall_row_height: "getItemHeight (row_of_lines 2 41) = 1029"
  by code_simp

text \<open>
  C8.  The planner is total: for every item list it returns a list of pages, with at
  least one page; every item of the list whose height exceeds \<open>limit\<close> has a page of
  its own in the result, and every item on a page whose height exceeds \<open>limit\<close> is the
  only item of that page.  (\<open>pages\<close> is a total function: the loop is a structural
  recursion over the item list.)
\<close>

theorem pages_total_tall_alone:
  "pages its \<noteq> []
   \<and> (\<forall>x \<in> set its. limit < getItemHeight x \<longrightarrow> [x] \<in> set (pages its))
   \<and> (\<forall>pg \<in> set (pages its). \<forall>x \<in> set pg. limit < getItemHeight x \<longrightarrow> pg = [x])"
proof -
  have "tall_alone (pages its)"
    unfolding pages_def
    by (intro tall_alone_flush tall_inv_forEach_items tall_inv_initial)
  then have a: "\<forall>pg \<in> set (pages its). \<forall>x \<in> set pg. limit < getItemHeight x \<longrightarrow> pg = [x]"
    by (simp add: tall_alone_def)
  have "[x] \<in> set (pages its)" if "x \<in> set its" and "limit < getItemHeight x" for x
  proof -
    from that(1) have "x \<in> set (concat (pages its))" by (simp add: concat_pages)
    then obtain pg where "pg \<in> set (pages its)" and "x \<in> set pg" by auto
    with a that(2) show ?thesis by auto
  qed
  moreover have "pages its \<noteq> []" by (simp add: pages_def flush_not_Nil)
  ultimately show ?thesis using a by blast
qed

theorem pages_total_tall_alone_witness:
  "pages tall_between \<noteq> []
   \<and> row_of_lines 2 41 \<in> set tall_between
   \<and> limit < getItemHeight (row_of_lines 2 41)
   \<and> [row_of_lines 2 41] \<in> set (pages tall_between)
   \<and> pages tall_between ! 1 \<in> set (pages tall_between)
   \<and> row_of_lines 2 41 \<in> set (pages tall_between ! 1)
   \<and> pages tall_between ! 1 = [row_of_lines 2 41]"
proof -
  have t: "limit < getItemHeight (row_of_lines 2 41)"
    by (simp add: tall_row_height limit_def A4_CONTENT_HEIGHT_def BOTTOM_SPACER_def)
  have i: "row_of_lines 2 41 \<in> set tall_between"
    by (simp add: tall_between_def)
  have m: "pages tall_between ! 1 \<in> set (pages tall_between)"
    by (simp add: pages_tall_between)
  have x: "row_of_lines 2 41 \<in> set (pages tall_between ! 1)"
    by (simp add: pages_tall_between)
  from pages_total_tall_alone [of tall_between] t i m x show ?thesis by blast
qed

subsection \<open>Empty pages\<close>

lemma later_pages_filled_snoc:
  "later_pages_filled (pgs @ [pg]) = (later_pages_filled pgs \<and> (pgs \<noteq> [] \<longrightarrow> pg \<noteq> []))"
  by (cases pgs) (auto simp: later_pages_filled_def)

lemma later_pages_filled_Nil: "later_pages_filled []"
  by (simp add: later_pages_filled_def)

lemma filled_inv_place_item:
  assumes "filled_inv st" and "int i \<noteq> int n - 1"
  shows "filled_inv (place_item n x i st)"
  using assms by (simp add: filled_inv_def place_item_def Let_def later_pages_filled_snoc)

lemma filled_place_last_item:
  assumes "filled_inv st" and "int i = int n - 1"
  shows "later_pages_filled (flush (place_item n x i st))"
  using assms
  by (simp add: filled_inv_def place_item_def Let_def flush_def later_pages_filled_snoc
        later_pages_filled_Nil)

lemma filled_forEach_items:
  assumes "filled_inv st" and "i + length xs = n" and "xs \<noteq> []"
  shows "later_pages_filled (flush (forEach_items n i xs st))"
  using assms
proof (induction xs arbitrary: i st)
  case Nil
  then show ?case by simp
next
  case (Cons x xs)
  show ?case
  proof (cases "xs = []")
    case True
    with Cons.prems have "int i = int n - 1" by auto
    with Cons.prems(1) True show ?thesis by (simp add: filled_place_last_item)
  next
    case False
    with Cons.prems have ne: "int i \<noteq> int n - 1" by auto
    have "later_pages_filled (flush (forEach_items n (Suc i) xs (place_item n x i st)))"
      using Cons.prems False
      by (intro Cons.IH filled_inv_place_item [OF _ ne]) simp_all
    then show ?thesis by simp
  qed
qed

lemma later_pages_filled_pages: "later_pages_filled (pages its)"
proof (cases "its = []")
  case True
  then show ?thesis
    by (simp add: pages_def flush_def initial_state_def later_pages_filled_def)
next
  case False
  have "filled_inv initial_state"
    by (simp add: filled_inv_def initial_state_def later_pages_filled_def)
  then show ?thesis unfolding pages_def using False
    by (intro filled_forEach_items) simp_all
qed

lemma hd_flush: "hd (flush st) = first_page st"
  by (simp add: flush_def first_page_def)

lemma first_page_place_item:
  assumes "resultPages st \<noteq> [] \<or> currentPageItems st \<noteq> []"
  shows "(first_page (place_item n x i st) = []) = (first_page st = [])
       \<and> (resultPages (place_item n x i st) \<noteq> [] \<or> currentPageItems (place_item n x i st) \<noteq> [])"
  using assms
  by (cases "resultPages st") (simp_all add: first_page_def place_item_def Let_def)

lemma first_page_forEach_items:
  assumes "resultPages st \<noteq> [] \<or> currentPageItems st \<noteq> []"
  shows "(first_page (forEach_items n i xs st) = []) = (first_page st = [])"
  using assms
proof (induction xs arbitrary: i st)
  case Nil
  then show ?case by simp
next
  case (Cons x xs)
  from first_page_place_item [OF Cons.prems, of n x i]
  have a: "(first_page (place_item n x i st) = []) = (first_page st = [])"
    and b: "resultPages (place_item n x i st) \<noteq> [] \<or> currentPageItems (place_item n x i st) \<noteq> []"
    by simp_all
  from Cons.IH [OF b, of "Suc i"] a show ?case by simp
qed

lemma first_page_first_item:
  "(first_page (place_item (Suc (length xs)) x 0 initial_state) = [])
     = (limit < HEADER_HEIGHT + getItemHeight x)
   \<and> (resultPages (place_item (Suc (length xs)) x 0 initial_state) \<noteq> []
        \<or> currentPageItems (place_item (Suc (length xs)) x 0 initial_state) \<noteq> [])"
  using getItemHeight_neq_620 [of x]
  by (simp add: first_page_def place_item_def Let_def initial_state_def limit_def
        HEADER_HEIGHT_def A4_CONTENT_HEIGHT_def FOOTER_HEIGHT_def BOTTOM_SPACER_def)

lemma first_page_empty_iff:
  "(hd (pages its) = []) = (its = [] \<or> limit < HEADER_HEIGHT + getItemHeight (hd its))"
proof (cases its)
  case Nil
  then show ?thesis by (simp add: pages_def flush_def initial_state_def)
next
  case (Cons x xs)
  from first_page_first_item [of xs x]
  have a: "(first_page (place_item (Suc (length xs)) x 0 initial_state) = [])
             = (limit < HEADER_HEIGHT + getItemHeight x)"
    and b: "resultPages (place_item (Suc (length xs)) x 0 initial_state) \<noteq> []
             \<or> currentPageItems (place_item (Suc (length xs)) x 0 initial_state) \<noteq> []"
    by simp_all
  from first_page_forEach_items [OF b, of "Suc (length xs)" "Suc 0" xs] a Cons
  show ?thesis by (simp add: pages_def hd_flush)
qed

lemma pages_tall_first:
  "pages tall_first = [[], [row_of_lines 1 41], [row_of_lines 2 0]]"
  by code_simp

lemma tall_first_height: "getItemHeight (hd tall_first) = 1029"
  by code_simp

text \<open>
  C10.  Every page other than the first holds at least one item.  The first page is
  empty exactly when the item list is empty or the first item does not fit under the
  header of page 1 (\<open>HEADER_HEIGHT + itemHeight > limit\<close>), in which case an item-free
  first page comes before it.
\<close>

theorem pages_only_first_empty:
  "(\<forall>p. 0 < p \<and> p < length (pages its) \<longrightarrow> pages its ! p \<noteq> [])
   \<and> (pages its ! 0 = [] \<longleftrightarrow> its = [] \<or> limit < HEADER_HEIGHT + getItemHeight (hd its))"
proof -
  have "pages its ! p \<noteq> []" if "0 < p" "p < length (pages its)" for p
  proof -
    from that have "pages its ! p = tl (pages its) ! (p - 1)" "p - 1 < length (tl (pages its))"
      by (simp_all add: nth_tl)
    then have "pages its ! p \<in> set (tl (pages its))" by (metis nth_mem)
    with later_pages_filled_pages [of its] show ?thesis by (auto simp: later_pages_filled_def)
  qed
  moreover have "pages its \<noteq> []" by (simp add: pages_def flush_not_Nil)
  then have "pages its ! 0 = hd (pages its)" by (simp add: hd_conv_nth)
  ultimately show ?thesis using first_page_empty_iff [of its] by auto
qed

theorem pages_only_first_empty_witness:
  "pages tall_first = [[], [row_of_lines 1 41], [row_of_lines 2 0]]
   \<and> (0::nat) < 1 \<and> 1 < length (pages tall_first) \<and> pages tall_first ! 1 \<noteq> []
   \<and> 2 < length (pages tall_first) \<and> pages tall_first ! 2 \<noteq> []
   \<and> pages tall_first ! 0 = []
   \<and> tall_first \<noteq> [] \<and> limit < HEADER_HEIGHT + getItemHeight (hd tall_first)"
proof -
  have l: "length (pages tall_first) = 3" by (simp add: pages_tall_first)
  have z: "pages tall_first ! 0 = []" by (simp add: pages_tall_first)
  have n: "tall_first \<noteq> []" by (simp add: tall_first_def)
  from pages_only_first_empty [of tall_first] l z n pages_tall_first
  show ?thesis by auto
qed

text \<open>
  Whenever there is an item, the last page holds one: the output never ends with an
  item-free page.
\<close>

lemma pages_last_page_not_empty:
  assumes "its \<noteq> []"
  shows "last (pages its) \<noteq> []"
proof (cases "tl (pages its) = []")
  case True
  have "pages its \<noteq> []" by (simp add: pages_def flush_not_Nil)
  with True have "pages its = [hd (pages its)]" by (cases "pages its") auto
  then have "concat (pages its) = hd (pages its)" "last (pages its) = hd (pages its)"
    by (metis concat.simps append_Nil2, metis last.simps)
  with assms concat_pages [of its] show ?thesis by simp
next
  case False
  then have "last (pages its) = last (tl (pages its))" by (simp add: last_tl)
  moreover have "last (tl (pages its)) \<in> set (tl (pages its))" using False by simp
  ultimately show ?thesis using later_pages_filled_pages [of its]
    by (auto simp: later_pages_filled_def)
qed

text \<open>
  C1.  The claim: when the last item triggers forced overflow
  (\<open>height + itemHeight + FOOTER_HEIGHT > A4_CONTENT_HEIGHT\<close> and
  \<open>height + itemHeight < limit\<close> on the page being filled), the planner appends the item,
  closes the page and emits one more page with the footer and no items.  Eight one-line
  items are such a list: before the eighth the height is \<open>380 + 7 * 45 = 695\<close>, and
  \<open>695 + 45 + 320 = 1060 > 1050\<close> while \<open>695 + 45 = 740 < 1000\<close>.  The loop closes the
  page and leaves an empty current page, which the final flush drops: the result is the
  one page with all eight items, and no item-free page follows it.
\<close>

theorem pages_forced_overflow_no_footer_page:
  "length eight_rows = 8
   \<and> currentHeight (forEach_items 8 0 (butlast eight_rows) initial_state)
       + getItemHeight (last eight_rows) + FOOTER_HEIGHT > A4_CONTENT_HEIGHT
   \<and> currentHeight (forEach_items 8 0 (butlast eight_rows) initial_state)
       + getItemHeight (last eight_rows) < limit
   \<and> currentPageItems (forEach_items 8 0 eight_rows initial_state) = []
   \<and> pages eight_rows = [eight_rows]"
  by code_simp

section \<open>Row numbers\<close>

lemma count_pages_take:
  assumes "i \<le> p" and "p \<le> length pgs"
  shows "count_pages pgs p i (length (concat (take i pgs))) = Inr (length (concat (take p pgs)))"
  using assms
proof (induction "p - i" arbitrary: i)
  case 0
  then have "i = p" by simp
  then show ?case by (subst count_pages.simps) simp
next
  case (Suc k)
  then have lt: "i < p" "i < length pgs" by simp_all
  have t: "take (Suc i) pgs = take i pgs @ [pgs ! i]"
    using lt(2) by (rule take_Suc_conv_app_nth)
  have "count_pages pgs p (Suc i) (length (concat (take (Suc i) pgs)))
          = Inr (length (concat (take p pgs)))"
    using Suc by (intro Suc.hyps(1)) simp_all
  then show ?case using lt by (subst count_pages.simps) (simp add: t)
qed

lemma getGlobalIndex_eq:
  assumes "p \<le> length pgs"
  shows "getGlobalIndex pgs p j = Inr (length (concat (take p pgs)) + j + 1)"
  using count_pages_take [of 0 p pgs] assms by (simp add: getGlobalIndex_def)

lemma nth_concat_take:
  assumes "p < length pgs" and "j < length (pgs ! p)"
  shows "concat pgs ! (length (concat (take p pgs)) + j) = pgs ! p ! j"
proof -
  have "pgs = take p pgs @ pgs ! p # drop (Suc p) pgs"
    using assms(1) by (rule id_take_nth_drop)
  then have "concat pgs = concat (take p pgs) @ pgs ! p @ concat (drop (Suc p) pgs)"
    by (metis concat.simps(2) concat_append)
  then show ?thesis using assms(2) by (simp add: nth_append)
qed

lemma length_concat_take_le:
  assumes "p < length pgs" and "j < length (pgs ! p)"
  shows "length (concat (take p pgs)) + j < length (concat pgs)"
proof -
  have "pgs = take p pgs @ pgs ! p # drop (Suc p) pgs"
    using assms(1) by (rule id_take_nth_drop)
  then have "concat pgs = concat (take p pgs) @ pgs ! p @ concat (drop (Suc p) pgs)"
    by (metis concat.simps(2) concat_append)
  then have "length (concat pgs) = length (concat (take p pgs)) + length (pgs ! p)
      + length (concat (drop (Suc p) pgs))"
    by simp
  then show ?thesis using assms(2) by simp
qed

lemma pages_five_three:
  "pages five_three_rows = [take 5 five_three_rows, drop 5 five_three_rows]"
  by code_simp

text \<open>
  C7.  For every item list and every position of its page split (page index \<open>p\<close>, local
  index \<open>j\<close> on that page), \<open>getGlobalIndex\<close> returns the 1-based position of that
  item in the item list: the items of the earlier pages, plus \<open>j\<close>, plus 1.  So the
  numbering runs on across page boundaries: with pages of 5 and 3 items the rows are
  numbered 1 to 5 on the first page and 6 to 8 on the second.
\<close>

theorem getGlobalIndex_position:
  assumes "p < length (pages its)" and "j < length (pages its ! p)"
  shows "(\<exists>n. getGlobalIndex (pages its) p j = Inr n
            \<and> n = length (concat (take p (pages its))) + j + 1
            \<and> 1 \<le> n \<and> n \<le> length its
            \<and> its ! (n - 1) = pages its ! p ! j)
       \<and> (length a = 5 \<and> length b = 3 \<longrightarrow>
            map (getGlobalIndex [a, b] 0) [0, 1, 2, 3, 4] = map Inr [1, 2, 3, 4, 5]
            \<and> map (getGlobalIndex [a, b] 1) [0, 1, 2] = map Inr [6, 7, 8])"
proof -
  let ?n = "length (concat (take p (pages its))) + j + 1"
  have g: "getGlobalIndex (pages its) p j = Inr ?n"
    using assms(1) by (simp add: getGlobalIndex_eq)
  have "length (concat (take p (pages its))) + j < length (concat (pages its))"
    using assms by (rule length_concat_take_le)
  then have u: "?n \<le> length its" by (simp add: concat_pages)
  have "concat (pages its) ! (length (concat (take p (pages its))) + j) = pages its ! p ! j"
    using assms by (rule nth_concat_take)
  then have v: "its ! (?n - 1) = pages its ! p ! j" by (simp add: concat_pages)
  have e: "length a = 5 \<and> length b = 3 \<longrightarrow>
            map (getGlobalIndex [a, b] 0) [0, 1, 2, 3, 4] = map Inr [1, 2, 3, 4, 5]
            \<and> map (getGlobalIndex [a, b] 1) [0, 1, 2] = map Inr [6, 7, 8]"
    by (simp add: getGlobalIndex_eq)
  show ?thesis using g u v e by simp
qed

theorem getGlobalIndex_position_witness:
  "1 < length (pages five_three_rows) \<and> 0 < length (pages five_three_rows ! 1)
   \<and> getGlobalIndex (pages five_three_rows) 1 0 = Inr 6
   \<and> five_three_rows ! (6 - 1) = pages five_three_rows ! 1 ! 0
   \<and> map (getGlobalIndex (pages five_three_rows) 0) [0, 1, 2, 3, 4] = map Inr [1, 2, 3, 4, 5]
   \<and> map (getGlobalIndex (pages five_three_rows) 1) [0, 1, 2] = map Inr [6, 7, 8]"
proof -
  have l: "length five_three_rows = 8" by (simp add: five_three_rows_def)
  have h1: "1 < length (pages five_three_rows)" by (simp add: pages_five_three)
  have h2: "0 < length (pages five_three_rows ! 1)" by (simp add: pages_five_three l)
  have t: "length (concat (take 1 (pages five_three_rows))) = 5"
    by (simp add: pages_five_three l)
  have ab: "length (take 5 five_three_rows) = 5 \<and> length (drop 5 five_three_rows) = 3"
    by (simp add: l)
  from getGlobalIndex_position [OF h1 h2, of "take 5 five_three_rows" "drop 5 five_three_rows"]
    h1 h2 t ab pages_five_three
  show ?thesis by auto
qed

section \<open>Double arithmetic\<close>

lemma round_half_even_of_int: "round_half_even (rat_of_int m) = m"
  by (simp add: round_half_even_def)

lemma bitlen_less_53:
  assumes "1 \<le> n" and "n < 2 ^ 53"
  shows "bitlen n \<le> 53"
proof -
  have "(2::int) ^ nat (bitlen n - 1) \<le> n" using bitlen_bounds [of n] assms(1) by simp
  with assms(2) have l: "(2::int) ^ nat (bitlen n - 1) < 2 ^ 53" by linarith
  have "nat (bitlen n - 1) < 53"
  proof (rule power_less_imp_less_exp)
    show "(1::int) < 2" by simp
    show "(2::int) ^ nat (bitlen n - 1) < 2 ^ 53" by (fact l)
  qed
  then show ?thesis by simp
qed

text \<open>An integer below \<open>2 ^ 53\<close> in magnitude is a double: rounding leaves it as it is.\<close>

lemma fl_of_int:
  assumes "\<bar>n\<bar> < 2 ^ 53"
  shows "fl (rat_of_int n) = rat_of_int n"
proof (cases "n = 0")
  case True
  then show ?thesis by (simp add: fl_def)
next
  case False
  define m where "m = \<bar>n\<bar>"
  define e where "e = max (ilog2 \<bar>rat_of_int n\<bar> - 52) (- 1074)"
  have a: "\<bar>rat_of_int n\<bar> = rat_of_int m" by (simp add: m_def)
  have p: "1 \<le> m" using False by (simp add: m_def)
  then have "ilog2 (rat_of_int m) = bitlen m - 1"
    by (simp add: ilog2_def)
  moreover have "bitlen m \<le> 53" using p assms unfolding m_def by (rule bitlen_less_53)
  ultimately have le: "e \<le> 0" by (simp add: e_def a)
  define k where "k = nat (- e)"
  have pw: "pow2 e = 1 / 2 ^ k"
  proof (cases "e = 0")
    case True
    then show ?thesis by (simp add: pow2_def k_def)
  next
    case False
    with le show ?thesis by (simp add: pow2_def k_def)
  qed
  have "rat_of_int n / pow2 e = rat_of_int (n * 2 ^ k)" by (simp add: pw)
  then have "round_half_even (rat_of_int n / pow2 e) = n * 2 ^ k"
    by (simp only: round_half_even_of_int)
  then have "rat_of_int (round_half_even (rat_of_int n / pow2 e)) * pow2 e = rat_of_int n"
    by (simp add: pw)
  then show ?thesis using False by (simp add: fl_def e_def Let_def)
qed

lemma fl_result_eq:
  assumes "fl x = y" and "\<bar>y\<bar> < 2 ^ 64"
  shows "fl_result x = Num y"
proof -
  have "(2::rat) ^ 64 < 2 ^ 1024" by (rule power_strict_increasing) simp_all
  with assms have "\<not> 2 ^ 1024 \<le> \<bar>fl x\<bar>" by linarith
  then show ?thesis using assms(1) by (simp add: fl_result_def Let_def)
qed

lemma abs_of_int_less_53:
  assumes "\<bar>n\<bar> < 2 ^ 53"
  shows "\<bar>rat_of_int n\<bar> < 2 ^ 53"
proof -
  have "rat_of_int \<bar>n\<bar> < rat_of_int (2 ^ 53)" using assms by (simp only: of_int_less_iff)
  then show ?thesis by simp
qed

lemma fl_result_of_int:
  assumes "\<bar>n\<bar> < 2 ^ 53"
  shows "fl_result (rat_of_int n) = Num (rat_of_int n)"
proof (rule fl_result_eq)
  show "fl (rat_of_int n) = rat_of_int n" using assms by (rule fl_of_int)
  have "(2::rat) ^ 53 < 2 ^ 64" by (rule power_strict_increasing) simp_all
  with abs_of_int_less_53 [OF assms] show "\<bar>rat_of_int n\<bar> < 2 ^ 64" by linarith
qed

lemma num_add_Num:
  assumes "fl (x + y) = z" and "\<bar>z\<bar> < 2 ^ 64"
  shows "num_add (Num x) (Num y) = Num z"
  using fl_result_eq [OF assms] by simp

lemma num_mul_Num:
  assumes "fl (x * y) = z" and "\<bar>z\<bar> < 2 ^ 64"
  shows "num_mul (Num x) (Num y) = Num z"
  using fl_result_eq [OF assms] by simp

lemma num_div_Num:
  assumes "y \<noteq> 0" and "fl (x / y) = z" and "\<bar>z\<bar> < 2 ^ 64"
  shows "num_div (Num x) (Num y) = Num z"
  using fl_result_eq [OF assms(2,3)] assms(1) by simp

lemma num_add_int:
  assumes "\<bar>a + b\<bar> < 2 ^ 53"
  shows "num_add (Num (rat_of_int a)) (Num (rat_of_int b)) = Num (rat_of_int (a + b))"
  using fl_result_of_int [OF assms] by simp

lemma num_mul_int:
  assumes "\<bar>a * b\<bar> < 2 ^ 53"
  shows "num_mul (Num (rat_of_int a)) (Num (rat_of_int b)) = Num (rat_of_int (a * b))"
  using fl_result_of_int [OF assms] by simp

lemma is_integer_Num:
  assumes "is_integer a"
  shows "\<exists>n. a = Num (rat_of_int n)"
proof (cases a)
  case (Num x)
  with assms show ?thesis by (auto simp: is_integer_def)
qed (use assms in \<open>simp_all add: is_integer_def\<close>)

lemma int_less_53:
  assumes "\<bar>rat_of_int n\<bar> < 2 ^ 53"
  shows "\<bar>n\<bar> < 2 ^ 53"
proof -
  have "rat_of_int \<bar>n\<bar> < rat_of_int (2 ^ 53)" using assms by simp
  then show ?thesis by (simp only: of_int_less_iff)
qed

section \<open>Totals\<close>

lemma calculatedSubtotal_fold:
  "calculatedSubtotal d = foldl num_add (Num 0) (map (rowAmount d) (items d))"
proof -
  have "rowAmount d = (\<lambda>item. num_mul (getPreTaxUnitPrice d (price item)) (quantity item))"
    by (rule ext) (simp add: rowAmount_def)
  then show ?thesis by (simp add: calculatedSubtotal_def foldl_map)
qed

lemma subtotal_fold_exact:
  assumes "list_all (\<lambda>item. is_integer (f item) \<and> is_integer (quantity item)) its"
    and "\<bar>rat_of_int a\<bar>
           + sum_list (map (\<lambda>item. \<bar>value_of (f item) * value_of (quantity item)\<bar>) its) < 2 ^ 53"
  shows "foldl (\<lambda>subtotal item. num_add subtotal (num_mul (f item) (quantity item)))
           (Num (rat_of_int a)) its
         = Num (rat_of_int a
                  + sum_list (map (\<lambda>item. value_of (f item) * value_of (quantity item)) its))"
  using assms
proof (induction its arbitrary: a)
  case Nil
  then show ?case by simp
next
  case (Cons x xs)
  let ?rest = "sum_list (map (\<lambda>item. \<bar>value_of (f item) * value_of (quantity item)\<bar>) xs)"
  from Cons.prems(1) have "is_integer (f x)" and "is_integer (quantity x)" by simp_all
  then obtain u q where u: "f x = Num (rat_of_int u)"
    and q: "quantity x = Num (rat_of_int q)"
    using is_integer_Num by blast
  have nn: "0 \<le> ?rest" by (rule sum_list_nonneg) auto
  have b: "\<bar>rat_of_int a\<bar> + \<bar>rat_of_int (u * q)\<bar> + ?rest < 2 ^ 53"
    using Cons.prems(2) by (simp add: u q value_of_def)
  then have "\<bar>rat_of_int (u * q)\<bar> < 2 ^ 53" using nn by linarith
  then have m: "num_mul (f x) (quantity x) = Num (rat_of_int (u * q))"
    unfolding u q by (intro num_mul_int int_less_53)
  have "\<bar>rat_of_int (a + u * q)\<bar> \<le> \<bar>rat_of_int a\<bar> + \<bar>rat_of_int (u * q)\<bar>" by simp
  with b have c: "\<bar>rat_of_int (a + u * q)\<bar> + ?rest < 2 ^ 53" by linarith
  then have "\<bar>rat_of_int (a + u * q)\<bar> < 2 ^ 53" using nn by linarith
  then have s: "num_add (Num (rat_of_int a)) (Num (rat_of_int (u * q)))
                  = Num (rat_of_int (a + u * q))"
    by (intro num_add_int int_less_53)
  have "foldl (\<lambda>subtotal item. num_add subtotal (num_mul (f item) (quantity item)))
           (Num (rat_of_int a)) (x # xs)
        = foldl (\<lambda>subtotal item. num_add subtotal (num_mul (f item) (quantity item)))
           (Num (rat_of_int (a + u * q))) xs"
    by (simp only: foldl_Cons m s)
  also have "\<dots> = Num (rat_of_int (a + u * q)
                  + sum_list (map (\<lambda>item. value_of (f item) * value_of (quantity item)) xs))"
    using Cons.prems(1) c by (intro Cons.IH) simp_all
  also have "rat_of_int (a + u * q)
                  + sum_list (map (\<lambda>item. value_of (f item) * value_of (quantity item)) xs)
        = rat_of_int a
            + sum_list (map (\<lambda>item. value_of (f item) * value_of (quantity item)) (x # xs))"
    by (simp add: u q value_of_def)
  finally show ?case .
qed

lemma integer_sum:
  assumes "list_all (\<lambda>item. is_integer (f item) \<and> is_integer (quantity item)) its"
  shows "\<exists>s. sum_list (map (\<lambda>item. value_of (f item) * value_of (quantity item)) its)
               = rat_of_int s"
  using assms
proof (induction its)
  case Nil
  have "(0::rat) = rat_of_int 0" by simp
  then show ?case by (simp only: list.map sum_list.Nil) blast
next
  case (Cons x xs)
  from Cons.prems have "is_integer (f x)" and "is_integer (quantity x)" by simp_all
  then obtain u q where u: "f x = Num (rat_of_int u)"
    and q: "quantity x = Num (rat_of_int q)"
    using is_integer_Num by blast
  from Cons obtain s where
    "sum_list (map (\<lambda>item. value_of (f item) * value_of (quantity item)) xs) = rat_of_int s"
    by auto
  then have "sum_list (map (\<lambda>item. value_of (f item) * value_of (quantity item)) (x # xs))
               = rat_of_int (u * q + s)"
    by (simp add: u q value_of_def)
  then show ?case by blast
qed

lemma exact_totals:
  assumes "integer_amounts d" and "amounts_bound d < 2 ^ 53"
  shows "calculatedSubtotal d = Num (exact_subtotal d)"
    and "taxableAmount d = Num (max 0 (exact_subtotal d - value_of (discount d)))"
proof -
  let ?f = "\<lambda>p. getPreTaxUnitPrice d p"
  have rows: "list_all (\<lambda>item. is_integer (getPreTaxUnitPrice d (price item))
                \<and> is_integer (quantity item)) (items d)"
    and disc: "is_integer (discount d)"
    using assms(1) by (simp_all add: integer_amounts_def)
  let ?abs = "sum_list (map (\<lambda>item. \<bar>exact_row d item\<bar>) (items d))"
  have ex: "exact_row d = (\<lambda>item. value_of (getPreTaxUnitPrice d (price item))
                               * value_of (quantity item))"
    by (rule ext) (simp add: exact_row_def)
  have nn: "0 \<le> \<bar>value_of (discount d)\<bar>" by simp
  have bd: "?abs + \<bar>value_of (discount d)\<bar> < 2 ^ 53"
    using assms(2) by (simp add: amounts_bound_def)
  then have "\<bar>rat_of_int 0\<bar> + ?abs < 2 ^ 53" using nn by simp
  then have "foldl (\<lambda>subtotal item.
                 num_add subtotal (num_mul (getPreTaxUnitPrice d (price item)) (quantity item)))
               (Num (rat_of_int 0)) (items d)
             = Num (rat_of_int 0 + exact_subtotal d)"
    unfolding exact_subtotal_def ex
    by (intro subtotal_fold_exact [where f = "\<lambda>item. getPreTaxUnitPrice d (price item)"] rows)
  then show sub: "calculatedSubtotal d = Num (exact_subtotal d)"
    by (simp add: calculatedSubtotal_def)
  from integer_sum [OF rows] obtain s where s: "exact_subtotal d = rat_of_int s"
    unfolding exact_subtotal_def ex by blast
  from is_integer_Num [OF disc] obtain n where n: "discount d = Num (rat_of_int n)" by blast
  have "\<bar>sum_list (map (exact_row d) (items d))\<bar>
          \<le> sum_list (map abs (map (exact_row d) (items d)))"
    by (rule sum_list_abs)
  then have "\<bar>exact_subtotal d\<bar> \<le> ?abs"
    by (simp add: exact_subtotal_def comp_def)
  with bd have "\<bar>rat_of_int s\<bar> + \<bar>rat_of_int n\<bar> < 2 ^ 53"
    by (simp add: s n value_of_def)
  moreover have "\<bar>rat_of_int (s + - n)\<bar> \<le> \<bar>rat_of_int s\<bar> + \<bar>rat_of_int n\<bar>" by simp
  ultimately have "\<bar>rat_of_int (s + - n)\<bar> < 2 ^ 53" by linarith
  then have add: "num_add (Num (rat_of_int s)) (Num (rat_of_int (- n)))
                    = Num (rat_of_int (s + - n))"
    by (intro num_add_int int_less_53)
  have neg: "num_neg (or_zero (discount d)) = Num (rat_of_int (- n))"
    by (simp add: n or_zero_def)
  have "num_sub (calculatedSubtotal d) (or_zero (discount d))
          = num_add (Num (rat_of_int s)) (Num (rat_of_int (- n)))"
    by (simp only: num_sub_def sub s neg)
  also have "\<dots> = Num (rat_of_int (s + - n))" by (fact add)
  finally have "taxableAmount d = Math_max (Num 0) (Num (rat_of_int (s + - n)))"
    by (simp only: taxableAmount_def)
  then show "taxableAmount d = Num (max 0 (exact_subtotal d - value_of (discount d)))"
    by (simp add: Math_max_def num_less_def s n value_of_def max_def)
qed

lemma Math_round_Num:
  "\<exists>r. Math_round (Num t) = Num (rat_of_int r)
         \<and> t - 1 / 2 < rat_of_int r \<and> rat_of_int r \<le> t + 1 / 2"
proof -
  have "t - 1 / 2 < rat_of_int \<lfloor>t + 1 / 2\<rfloor> \<and> rat_of_int \<lfloor>t + 1 / 2\<rfloor> \<le> t + 1 / 2"
    by linarith
  then show ?thesis by auto
qed

lemma abs_exact_row_le:
  "it \<in> set its \<Longrightarrow> \<bar>g it\<bar> \<le> sum_list (map (\<lambda>item. \<bar>g item :: rat\<bar>) its)"
proof (induction its)
  case Nil
  then show ?case by simp
next
  case (Cons x xs)
  have "0 \<le> sum_list (map (\<lambda>item. \<bar>g item\<bar>) xs)" by (rule sum_list_nonneg) auto
  with Cons show ?case by auto
qed

lemma exact_rowAmount:
  assumes "integer_amounts d" and "amounts_bound d < 2 ^ 53" and "it \<in> set (items d)"
  shows "rowAmount d it = Num (exact_row d it)"
proof -
  from assms(1,3) have "is_integer (getPreTaxUnitPrice d (price it))" "is_integer (quantity it)"
    by (auto simp: integer_amounts_def list_all_iff)
  then obtain u q where u: "getPreTaxUnitPrice d (price it) = Num (rat_of_int u)"
    and q: "quantity it = Num (rat_of_int q)"
    using is_integer_Num by blast
  have e: "exact_row d it = rat_of_int (u * q)" by (simp add: exact_row_def u q value_of_def)
  have "\<bar>exact_row d it\<bar> \<le> sum_list (map (\<lambda>item. \<bar>exact_row d item\<bar>) (items d))"
    using assms(3) by (rule abs_exact_row_le)
  with assms(2) have "\<bar>rat_of_int (u * q)\<bar> < 2 ^ 53"
    unfolding e [symmetric] amounts_bound_def by linarith
  then have "num_mul (Num (rat_of_int u)) (Num (rat_of_int q)) = Num (rat_of_int (u * q))"
    by (intro num_mul_int int_less_53)
  then show ?thesis by (simp only: rowAmount_def Let_def u q e)
qed

text \<open>The quotation of 50 at a tax rate of 29, prices before tax.\<close>

lemma fl_rate_29:
  "fl (29 / 100) = 5224175567749775 / 18014398509481984"
  "fl (50 * (5224175567749775 / 18014398509481984)) = 8162774324609023 / 562949953421312"
  "\<lfloor>8162774324609023 / 562949953421312 + 1 / 2 :: rat\<rfloor> = 14"
  "fl (1450 / 100) = 29 / 2"
  "\<lfloor>29 / 2 + 1 / 2 :: rat\<rfloor> = 15"
  "round (50 * 29 / 100 :: rat) = 15"
  by code_simp+

lemma quote_rate_29_fields:
  "items quote_rate_29 = [\<lparr>item_id = 1, name = [97], spec = [], description = None,
                quantity = Num 1, price = Num 50\<rparr>]"
  "discount quote_rate_29 = Num 0"
  "taxRate (quoteDetails quote_rate_29) = Num 29"
  "\<not> isTaxInclusive quote_rate_29"
  by (simp_all add: quote_rate_29_def)

lemma quote_rate_29_exact:
  "integer_amounts quote_rate_29" "amounts_bound quote_rate_29 < 2 ^ 53"
  "exact_subtotal quote_rate_29 = 50"
  by (simp_all add: integer_amounts_def amounts_bound_def exact_subtotal_def exact_row_def
        quote_rate_29_fields getPreTaxUnitPrice_def is_integer_def value_of_def)

lemma quote_rate_29_taxable: "taxableAmount quote_rate_29 = Num 50"
  using exact_totals(2) [OF quote_rate_29_exact(1,2)]
  by (simp add: quote_rate_29_exact(3) quote_rate_29_fields value_of_def)

lemma quote_rate_29_tax: "taxAmount quote_rate_29 = Num 14"
proof -
  have "num_div (Num 29) (Num 100) = Num (5224175567749775 / 18014398509481984)"
    by (rule num_div_Num [OF _ fl_rate_29(1)]) simp_all
  moreover have "num_mul (Num 50) (Num (5224175567749775 / 18014398509481984))
      = Num (8162774324609023 / 562949953421312)"
    by (rule num_mul_Num [OF fl_rate_29(2)]) simp
  ultimately show ?thesis
    by (simp only: taxAmount_def quote_rate_29_taxable quote_rate_29_fields Math_round.simps
          fl_rate_29(3) of_int_numeral)
qed

lemma quote_rate_29_total: "total quote_rate_29 = Num 64"
proof -
  have "num_add (Num (rat_of_int 50)) (Num (rat_of_int 14)) = Num (rat_of_int (50 + 14))"
    by (rule num_add_int) simp
  then show ?thesis by (simp add: total_def quote_rate_29_taxable quote_rate_29_tax)
qed

lemma product_first_29:
  "Math_round (num_div (num_mul (Num 50) (Num 29)) (Num 100)) = Num 15"
proof -
  have "num_mul (Num (rat_of_int 50)) (Num (rat_of_int 29)) = Num (rat_of_int (50 * 29))"
    by (rule num_mul_int) simp
  then have "num_mul (Num 50) (Num 29) = Num 1450" by simp
  moreover have "num_div (Num 1450) (Num 100) = Num (29 / 2)"
    by (rule num_div_Num [OF _ fl_rate_29(4)]) simp_all
  ultimately show ?thesis
    by (simp only: Math_round.simps fl_rate_29(5) of_int_numeral)
qed

text \<open>
  C3, as stated: \<open>taxAmount = round (taxableAmount * taxRatePercent / 100)\<close>.  It
  fails for one item of 50 at a tax rate of 29, prices before tax: the taxable amount
  is 50, and 50 times 29 over 100 is 14.5, which rounds to 15, in exact arithmetic and
  also in double arithmetic when the product is taken first.  The code divides the rate
  by 100 first; the double nearest to 0.29 is below 0.29, its product with 50 is the
  double 14.499999999999998, and \<open>Math.round\<close> returns 14, for a total of 64.
\<close>

theorem taxAmount_exact_counterexample:
  "\<not> isTaxInclusive quote_rate_29
   \<and> taxRate (quoteDetails quote_rate_29) = Num 29
   \<and> taxableAmount quote_rate_29 = Num 50
   \<and> round (50 * 29 / 100 :: rat) = 15
   \<and> Math_round (num_div (num_mul (Num 50) (Num 29)) (Num 100)) = Num 15
   \<and> taxAmount quote_rate_29 = Num 14
   \<and> total quote_rate_29 = Num 64"
  using quote_rate_29_fields(3,4) quote_rate_29_taxable fl_rate_29(6) product_first_29
    quote_rate_29_tax quote_rate_29_total
  by blast

text \<open>
  C3, amended.  For every item list, tax rate, discount and tax-mode flag, every
  arithmetic operation being the double operation of JavaScript (the exact result
  rounded to the nearest double): the row amount is the effective unit price times the
  quantity, with no rounding to an integer after the unit-price step; the subtotal is
  the sum of the row amounts, added from 0 in list order; the taxable amount is
  \<open>max 0 (subtotal - discount)\<close>, a discount that is NaN counting as 0; the tax amount is
  \<open>Math.round (taxableAmount * (taxRate / 100))\<close>, the rate divided by 100 first and the
  product rounded once, at the aggregate level, to a nearest integer (a tie going up);
  the total is the taxable amount plus the tax amount.  When the effective unit prices,
  the quantities and the discount are integers, and the magnitudes of the row amounts
  and of the discount add up to less than \<open>2 ^ 53\<close>, the row amounts, the subtotal and
  the taxable amount are exact: they are the amounts of the same formulas in exact
  arithmetic.
\<close>

theorem totals_formulas:
  "rowAmount d it = num_mul (getPreTaxUnitPrice d (price it)) (quantity it)
   \<and> calculatedSubtotal d = foldl num_add (Num 0) (map (rowAmount d) (items d))
   \<and> taxableAmount d
       = Math_max (Num 0) (num_sub (calculatedSubtotal d) (or_zero (discount d)))
   \<and> taxAmount d
       = Math_round (num_mul (taxableAmount d) (num_div (taxRate (quoteDetails d)) (Num 100)))
   \<and> (\<forall>t. num_mul (taxableAmount d) (num_div (taxRate (quoteDetails d)) (Num 100)) = Num t
          \<longrightarrow> (\<exists>r. taxAmount d = Num (rat_of_int r)
                  \<and> t - 1 / 2 < rat_of_int r \<and> rat_of_int r \<le> t + 1 / 2))
   \<and> total d = num_add (taxableAmount d) (taxAmount d)
   \<and> (integer_amounts d \<and> amounts_bound d < 2 ^ 53 \<longrightarrow>
         (it \<in> set (items d) \<longrightarrow> rowAmount d it = Num (exact_row d it))
         \<and> calculatedSubtotal d = Num (exact_subtotal d)
         \<and> taxableAmount d = Num (max 0 (exact_subtotal d - value_of (discount d))))"
proof -
  have r: "rowAmount d it = num_mul (getPreTaxUnitPrice d (price it)) (quantity it)"
    by (simp add: rowAmount_def)
  have a: "taxAmount d
       = Math_round (num_mul (taxableAmount d) (num_div (taxRate (quoteDetails d)) (Num 100)))"
    by (simp add: taxAmount_def)
  have n: "\<forall>t. num_mul (taxableAmount d) (num_div (taxRate (quoteDetails d)) (Num 100)) = Num t
          \<longrightarrow> (\<exists>r. taxAmount d = Num (rat_of_int r)
                  \<and> t - 1 / 2 < rat_of_int r \<and> rat_of_int r \<le> t + 1 / 2)"
    using Math_round_Num by (simp add: taxAmount_def)
  have e: "integer_amounts d \<and> amounts_bound d < 2 ^ 53 \<longrightarrow>
         (it \<in> set (items d) \<longrightarrow> rowAmount d it = Num (exact_row d it))
         \<and> calculatedSubtotal d = Num (exact_subtotal d)
         \<and> taxableAmount d = Num (max 0 (exact_subtotal d - value_of (discount d)))"
    using exact_totals [of d] exact_rowAmount [of d it] by blast
  have c: "calculatedSubtotal d = foldl num_add (Num 0) (map (rowAmount d) (items d))"
    by (rule calculatedSubtotal_fold)
  have x: "taxableAmount d
       = Math_max (Num 0) (num_sub (calculatedSubtotal d) (or_zero (discount d)))"
    by (simp add: taxableAmount_def)
  have s: "total d = num_add (taxableAmount d) (taxAmount d)"
    by (simp add: total_def)
  show ?thesis by (intro conjI) (rule r c x a n s e)+
qed

text \<open>
  The quotation of three items at 1000, tax included at a rate of 5, with a discount of
  51: \<open>1000 / 1.05 = 952.38...\<close> rounds to 952, and \<open>2805 * 0.05 = 140.25\<close> to 140.
\<close>

lemma fl_rate_5:
  "fl (5 / 100) = 3602879701896397 / 72057594037927936"
  "fl (1 + 3602879701896397 / 72057594037927936) = 4728779608739021 / 4503599627370496"
  "fl (1000 / (4728779608739021 / 4503599627370496)) = 523576965607619 / 549755813888"
  "\<lfloor>523576965607619 / 549755813888 + 1 / 2 :: rat\<rfloor> = 952"
  "fl (2805 * (3602879701896397 / 72057594037927936)) = 561 / 4"
  "\<lfloor>561 / 4 + 1 / 2 :: rat\<rfloor> = 140"
  "round_half_away_from_zero (523576965607619 / 549755813888) = 952"
  by code_simp+

lemma quote_inclusive_fields:
  "items quote_inclusive = [\<lparr>item_id = 1, name = [97], spec = [], description = None,
                quantity = Num 3, price = Num 1000\<rparr>]"
  "discount quote_inclusive = Num 51"
  "taxRate (quoteDetails quote_inclusive) = Num 5"
  "isTaxInclusive quote_inclusive"
  by (simp_all add: quote_inclusive_def)

lemma quote_inclusive_rate:
  "num_div (Num 5) (Num 100) = Num (3602879701896397 / 72057594037927936)"
  by (rule num_div_Num [OF _ fl_rate_5(1)]) simp_all

lemma quote_inclusive_factor:
  "taxFactor quote_inclusive = Num (4728779608739021 / 4503599627370496)"
proof -
  have "num_add (Num 1) (Num (3602879701896397 / 72057594037927936))
      = Num (4728779608739021 / 4503599627370496)"
    by (rule num_add_Num [OF fl_rate_5(2)]) simp
  then show ?thesis by (simp only: taxFactor_def quote_inclusive_fields quote_inclusive_rate)
qed

lemma quote_inclusive_quotient:
  "num_div (Num 1000) (taxFactor quote_inclusive) = Num (523576965607619 / 549755813888)"
  unfolding quote_inclusive_factor
  by (rule num_div_Num [OF _ fl_rate_5(3)]) simp_all

lemma quote_inclusive_unit: "getPreTaxUnitPrice quote_inclusive (Num 1000) = Num 952"
  by (simp only: getPreTaxUnitPrice_def quote_inclusive_fields if_True quote_inclusive_quotient
        Math_round.simps fl_rate_5(4) of_int_numeral)

lemma quote_inclusive_exact:
  "integer_amounts quote_inclusive" "amounts_bound quote_inclusive < 2 ^ 53"
  "exact_subtotal quote_inclusive = 2856"
  by (simp_all add: integer_amounts_def amounts_bound_def exact_subtotal_def exact_row_def
        quote_inclusive_fields quote_inclusive_unit is_integer_def value_of_def)

lemma quote_inclusive_tax:
  assumes "taxableAmount quote_inclusive = Num 2805"
  shows "taxAmount quote_inclusive = Num 140"
proof -
  have "num_mul (Num 2805) (Num (3602879701896397 / 72057594037927936)) = Num (561 / 4)"
    by (rule num_mul_Num [OF fl_rate_5(5)]) simp
  then show ?thesis
    by (simp only: taxAmount_def assms quote_inclusive_fields quote_inclusive_rate
          Math_round.simps fl_rate_5(6) of_int_numeral)
qed

theorem totals_formulas_witness:
  "integer_amounts quote_inclusive
   \<and> amounts_bound quote_inclusive < 2 ^ 53
   \<and> exact_subtotal quote_inclusive = 2856
   \<and> getPreTaxUnitPrice quote_inclusive (Num 1000) = Num 952
   \<and> calculatedSubtotal quote_inclusive = Num 2856
   \<and> taxableAmount quote_inclusive = Num 2805
   \<and> num_mul (taxableAmount quote_inclusive)
         (num_div (taxRate (quoteDetails quote_inclusive)) (Num 100)) = Num (561 / 4)
   \<and> taxAmount quote_inclusive = Num 140
   \<and> total quote_inclusive = Num 2945"
proof -
  note t = totals_formulas [of quote_inclusive "hd (items quote_inclusive)"]
  from t quote_inclusive_exact(1,2)
  have "calculatedSubtotal quote_inclusive = Num (exact_subtotal quote_inclusive)"
    and "taxableAmount quote_inclusive
           = Num (max 0 (exact_subtotal quote_inclusive - value_of (discount quote_inclusive)))"
    by blast+
  then have s: "calculatedSubtotal quote_inclusive = Num 2856"
    and x: "taxableAmount quote_inclusive = Num 2805"
    by (simp_all add: quote_inclusive_exact(3) quote_inclusive_fields value_of_def)
  have m: "num_mul (taxableAmount quote_inclusive)
         (num_div (taxRate (quoteDetails quote_inclusive)) (Num 100)) = Num (561 / 4)"
    unfolding x quote_inclusive_fields quote_inclusive_rate
    by (rule num_mul_Num [OF fl_rate_5(5)]) simp
  have "num_add (Num (rat_of_int 2805)) (Num (rat_of_int 140)) = Num (rat_of_int (2805 + 140))"
    by (rule num_add_int) simp
  then have "total quote_inclusive = Num 2945"
    by (simp add: total_def x quote_inclusive_tax [OF x])
  with s x m quote_inclusive_exact quote_inclusive_unit quote_inclusive_tax [OF x]
  show ?thesis by blast
qed

section \<open>Effective unit price\<close>

lemma round_half_away_nonneg:
  "0 \<le> x \<Longrightarrow> round_half_away_from_zero x = \<lfloor>x + 1 / 2\<rfloor>"
  by (simp add: round_half_away_from_zero_def)

lemma round_half_away_no_tie:
  assumes "x + 1 / 2 \<notin> \<int>"
  shows "round_half_away_from_zero x = \<lfloor>x + 1 / 2\<rfloor>"
proof (cases "0 \<le> x")
  case True
  then show ?thesis by (rule round_half_away_nonneg)
next
  case False
  have "- x + 1 / 2 = - (x + 1 / 2) + 1" by simp
  then have "\<lfloor>- x + 1 / 2\<rfloor> = \<lfloor>- (x + 1 / 2)\<rfloor> + 1" by (metis floor_add_int of_int_1)
  also have "\<lfloor>- (x + 1 / 2)\<rfloor> = - \<lceil>x + 1 / 2\<rceil>" by (simp add: ceiling_def)
  also have "\<lceil>x + 1 / 2\<rceil> = \<lfloor>x + 1 / 2\<rfloor> + 1"
  proof -
    have "x + 1 / 2 \<noteq> rat_of_int \<lfloor>x + 1 / 2\<rfloor>" using assms by (metis Ints_of_int)
    then show ?thesis by (simp add: ceiling_altdef)
  qed
  finally show ?thesis using False by (simp add: round_half_away_from_zero_def)
qed

text \<open>The quotations at tax rates of 100 and of 12, tax included.\<close>

lemma fl_rate_100:
  "fl (100 / 100) = 1"
  "fl (1 + 1) = 2"
  "fl (- 5 / 2) = - 5 / 2"
  "\<lfloor>- 5 / 2 + 1 / 2 :: rat\<rfloor> = - 2"
  "round_half_away_from_zero (- 5 / 2) = - 3"
  by code_simp+

lemma fl_rate_12:
  "fl (12 / 100) = 1080863910568919 / 9007199254740992"
  "fl (1 + 1080863910568919 / 9007199254740992) = 1261007895663739 / 1125899906842624"
  "fl (14 / (1261007895663739 / 1125899906842624)) = 7036874417766399 / 562949953421312"
  "\<lfloor>7036874417766399 / 562949953421312 + 1 / 2 :: rat\<rfloor> = 12"
  "round_half_away_from_zero (14 / (1 + 12 / 100)) = 13"
  by code_simp+

lemma quote_negative_tie_fields:
  "taxRate (quoteDetails quote_negative_tie) = Num 100"
  "isTaxInclusive quote_negative_tie"
  by (simp_all add: quote_negative_tie_def)

lemma quote_negative_tie_factor: "taxFactor quote_negative_tie = Num 2"
proof -
  have "num_div (Num 100) (Num 100) = Num 1"
    by (rule num_div_Num [OF _ fl_rate_100(1)]) simp_all
  moreover have "num_add (Num 1) (Num 1) = Num 2"
    by (rule num_add_Num [OF fl_rate_100(2)]) simp
  ultimately show ?thesis by (simp only: taxFactor_def quote_negative_tie_fields)
qed

lemma quote_negative_tie_unit:
  "getPreTaxUnitPrice quote_negative_tie (Num (- 5)) = Num (- 2)"
proof -
  have "num_div (Num (- 5)) (Num 2) = Num (- 5 / 2)"
    by (rule num_div_Num [OF _ fl_rate_100(3)]) simp_all
  then show ?thesis
    by (simp only: getPreTaxUnitPrice_def quote_negative_tie_fields if_True
          quote_negative_tie_factor Math_round.simps fl_rate_100(4) of_int_minus of_int_numeral)
qed

lemma quote_rate_12_fields:
  "taxRate (quoteDetails quote_rate_12) = Num 12"
  "isTaxInclusive quote_rate_12"
  by (simp_all add: quote_rate_12_def)

lemma quote_rate_12_factor:
  "taxFactor quote_rate_12 = Num (1261007895663739 / 1125899906842624)"
proof -
  have "num_div (Num 12) (Num 100) = Num (1080863910568919 / 9007199254740992)"
    by (rule num_div_Num [OF _ fl_rate_12(1)]) simp_all
  moreover have "num_add (Num 1) (Num (1080863910568919 / 9007199254740992))
      = Num (1261007895663739 / 1125899906842624)"
    by (rule num_add_Num [OF fl_rate_12(2)]) simp
  ultimately show ?thesis by (simp only: taxFactor_def quote_rate_12_fields)
qed

lemma quote_rate_12_unit: "getPreTaxUnitPrice quote_rate_12 (Num 14) = Num 12"
proof -
  have "num_div (Num 14) (Num (1261007895663739 / 1125899906842624))
      = Num (7036874417766399 / 562949953421312)"
    by (rule num_div_Num [OF _ fl_rate_12(3)]) simp_all
  then show ?thesis
    by (simp only: getPreTaxUnitPrice_def quote_rate_12_fields if_True quote_rate_12_factor
          Math_round.simps fl_rate_12(4) of_int_numeral)
qed

text \<open>
  C4, as stated: in tax-inclusive mode the effective unit price is
  \<open>unitPrice / taxFactor\<close> rounded to the nearest integer, a tie going away from zero.
  It fails twice.  On a negative tie: with a tax rate of 100 the tax factor is 2, the
  unit price \<open>-5\<close> gives the quotient \<open>-5/2\<close>, which rounds half away from zero to \<open>-3\<close>,
  and \<open>Math.round\<close> returns \<open>-2\<close>.  On a quotient that is a tie only in exact arithmetic:
  with a tax rate of 12 and a unit price of 14 the exact quotient is \<open>12.5\<close>, which
  rounds to 13, while the code's tax factor is the double above 1.12, its quotient the
  double \<open>12.499999999999998\<close>, and the result 12.
\<close>

theorem getPreTaxUnitPrice_half_away_counterexample:
  "isTaxInclusive quote_negative_tie
   \<and> taxFactor quote_negative_tie = Num 2
   \<and> getPreTaxUnitPrice quote_negative_tie (Num (- 5)) = Num (- 2)
   \<and> round_half_away_from_zero (- 5 / 2) = - 3
   \<and> isTaxInclusive quote_rate_12
   \<and> taxRate (quoteDetails quote_rate_12) = Num 12
   \<and> getPreTaxUnitPrice quote_rate_12 (Num 14) = Num 12
   \<and> round_half_away_from_zero (14 / (1 + 12 / 100)) = 13"
  using quote_negative_tie_fields(2) quote_negative_tie_factor quote_negative_tie_unit
    fl_rate_100(5) quote_rate_12_fields quote_rate_12_unit fl_rate_12(5)
  by blast

text \<open>
  C4, amended.  For every unit price, negative ones included, and every tax rate: the
  tax factor is the double \<open>1 + taxRate / 100\<close>, and when \<open>isTaxInclusive\<close> is true the
  effective unit price is \<open>Math.round\<close> of the double quotient \<open>unitPrice / taxFactor\<close>.
  When that quotient \<open>q\<close> is finite, this is \<open>q\<close> rounded to the nearest integer, a tie
  going to the larger integer (the integer \<open>r\<close> with \<open>q - 1/2 < r \<le> q + 1/2\<close>), which
  is rounding half away from zero when \<open>q\<close> is not negative or is not a tie; when the
  quotient is an infinity or NaN (a tax factor of 0, an overflow), it is the quotient
  itself.  When \<open>isTaxInclusive\<close> is false the effective unit price is the unit price
  unchanged.
\<close>

theorem getPreTaxUnitPrice_rounds_half_up:
  "taxFactor d = num_add (Num 1) (num_div (taxRate (quoteDetails d)) (Num 100))
   \<and> (isTaxInclusive d \<longrightarrow>
         (\<forall>q. num_div p (taxFactor d) = Num q \<longrightarrow>
            (\<exists>r::int. getPreTaxUnitPrice d p = Num (rat_of_int r)
               \<and> q - 1 / 2 < rat_of_int r \<and> rat_of_int r \<le> q + 1 / 2
               \<and> (0 \<le> q \<or> q + 1 / 2 \<notin> \<int> \<longrightarrow> r = round_half_away_from_zero q)))
         \<and> (num_div p (taxFactor d) \<in> {PosInf, NegInf, NaN} \<longrightarrow>
              getPreTaxUnitPrice d p = num_div p (taxFactor d)))
   \<and> (\<not> isTaxInclusive d \<longrightarrow> getPreTaxUnitPrice d p = p)"
proof -
  have f: "taxFactor d = num_add (Num 1) (num_div (taxRate (quoteDetails d)) (Num 100))"
    by (simp add: taxFactor_def)
  have fin: "\<exists>r::int. Math_round (Num q) = Num (rat_of_int r)
               \<and> q - 1 / 2 < rat_of_int r \<and> rat_of_int r \<le> q + 1 / 2
               \<and> (0 \<le> q \<or> q + 1 / 2 \<notin> \<int> \<longrightarrow> r = round_half_away_from_zero q)" for q
  proof -
    have "q - 1 / 2 < rat_of_int \<lfloor>q + 1 / 2\<rfloor> \<and> rat_of_int \<lfloor>q + 1 / 2\<rfloor> \<le> q + 1 / 2"
      by linarith
    moreover have "0 \<le> q \<or> q + 1 / 2 \<notin> \<int> \<longrightarrow> \<lfloor>q + 1 / 2\<rfloor> = round_half_away_from_zero q"
      using round_half_away_nonneg [of q] round_half_away_no_tie [of q] by auto
    ultimately show ?thesis by auto
  qed
  have a: "isTaxInclusive d \<longrightarrow>
         (\<forall>q. num_div p (taxFactor d) = Num q \<longrightarrow>
            (\<exists>r::int. getPreTaxUnitPrice d p = Num (rat_of_int r)
               \<and> q - 1 / 2 < rat_of_int r \<and> rat_of_int r \<le> q + 1 / 2
               \<and> (0 \<le> q \<or> q + 1 / 2 \<notin> \<int> \<longrightarrow> r = round_half_away_from_zero q)))"
    using fin by (simp add: getPreTaxUnitPrice_def)
  have b: "isTaxInclusive d \<longrightarrow>
         (num_div p (taxFactor d) \<in> {PosInf, NegInf, NaN} \<longrightarrow>
              getPreTaxUnitPrice d p = num_div p (taxFactor d))"
    by (auto simp: getPreTaxUnitPrice_def)
  have c: "\<not> isTaxInclusive d \<longrightarrow> getPreTaxUnitPrice d p = p"
    by (simp add: getPreTaxUnitPrice_def)
  show ?thesis using f a b c by blast
qed

theorem getPreTaxUnitPrice_rounds_half_up_witness:
  "isTaxInclusive quote_inclusive
   \<and> taxFactor quote_inclusive = Num (4728779608739021 / 4503599627370496)
   \<and> num_div (Num 1000) (taxFactor quote_inclusive) = Num (523576965607619 / 549755813888)
   \<and> getPreTaxUnitPrice quote_inclusive (Num 1000) = Num 952
   \<and> (\<exists>r::int. getPreTaxUnitPrice quote_inclusive (Num 1000) = Num (rat_of_int r)
         \<and> 523576965607619 / 549755813888 - 1 / 2 < rat_of_int r
         \<and> rat_of_int r \<le> 523576965607619 / 549755813888 + 1 / 2
         \<and> r = round_half_away_from_zero (523576965607619 / 549755813888))"
proof -
  have p: "(0::rat) \<le> 523576965607619 / 549755813888" by simp
  from getPreTaxUnitPrice_rounds_half_up [of quote_inclusive "Num 1000"]
    quote_inclusive_fields(4) quote_inclusive_quotient p
  have "\<exists>r::int. getPreTaxUnitPrice quote_inclusive (Num 1000) = Num (rat_of_int r)
         \<and> 523576965607619 / 549755813888 - 1 / 2 < rat_of_int r
         \<and> rat_of_int r \<le> 523576965607619 / 549755813888 + 1 / 2
         \<and> r = round_half_away_from_zero (523576965607619 / 549755813888)"
    by blast
  with quote_inclusive_fields(4) quote_inclusive_factor quote_inclusive_quotient
    quote_inclusive_unit
  show ?thesis by blast
qed

end
